theory Spec2Isabelle
  imports Complex_Main
begin

section \<open>Strings, numbers and exceptions\<close>





definition whitespace :: string where
  "whitespace = [CHR 0x09, CHR 0x0A, CHR 0x0B, CHR 0x0C, CHR 0x0D, CHR 0x1C, CHR 0x1D,
                 CHR 0x1E, CHR 0x1F, CHR 0x20, CHR 0x85, CHR 0xA0]"

definition isspace :: "char \<Rightarrow> bool" where
  "isspace c \<longleftrightarrow> c \<in> set whitespace"

definition lstrip :: "string \<Rightarrow> string" where
  "lstrip s = dropWhile isspace s"


text \<open>\<^verbatim>\<open>str(n)\<close> for an integer, as an f-string formats it.\<close>

fun str_nat :: "nat \<Rightarrow> string" where
  "str_nat n = (if n < 10 then [''0123456789'' ! n]
                else str_nat (n div 10) @ [''0123456789'' ! (n mod 10)])"

declare str_nat.simps [simp del]

definition str_int :: "int \<Rightarrow> string" where
  "str_int i = (if i < 0 then CHR ''-'' # str_nat (nat (- i)) else str_nat (nat i))"


text \<open>
  The exception classes of \<^verbatim>\<open>exceptions.py\<close>, the two transport faults of the
  libraries that \<^verbatim>\<open>emitter\<close> catches, and the built-in \<^verbatim>\<open>KeyError\<close>. An \<^verbatim>\<open>ApiError\<close> carries what its message
  is built from.
\<close>

datatype url =
    SEARCH_URL string "string option"
  | MOBILE_URL string

datatype api_message =
    Query_is_missing
  | Error_query_is_missing
  | Owner_id_is_missing
  | Internal_response_error
  | Not_available url int

datatype error =
    CriticalError
  | NonCriticalError
  | InvalidOwnerId string
  | InvalidProfile string
  | PrivateProfile string
  | InvalidGroup
  | PrivateGroup
  | InvalidTaskParams
  | ApiError api_message
  | PermissionDenied
  | AsyncTimeoutError
  | ClientError
  | KeyError

section \<open>parse_url\<close>









section \<open>construct_query\<close>

definition construct_query ::
  "string \<Rightarrow> string \<Rightarrow> bool \<Rightarrow> string \<Rightarrow> string \<Rightarrow> int \<Rightarrow> error + string" where
  "construct_query search_query profile reply since until since_id =
     (let query = search_query;
          query = (if profile \<noteq> [] then query @ (if reply then '' to:'' else '' from:'') @ profile
                   else query);
          query = (if reply then query @ '' filter:replies'' else query);
          query = (if until \<noteq> [] then query @ '' until:'' @ until else query);
          query = (if since \<noteq> [] then query @ '' since:'' @ since else query);
          query = (if since_id \<noteq> 0 then query @ '' since_id:'' @ str_int since_id else query)
      in if query = [] then Inl (ApiError Query_is_missing) else Inr (lstrip query))"

section \<open>The network, the responses and the results of a call\<close>

text \<open>
  A checkpoint (\<^verbatim>\<open>stage\<close>) is a dict read with \<^verbatim>\<open>.get\<close> and a default, so each of its
  keys may be absent. A twit dict is its \<^verbatim>\<open>'stage'\<close> entry beside its other entries;
  \<^verbatim>\<open>twit.pop('stage', {})\<close> takes the two apart.
\<close>

record stage =
  max_position :: "string option"
  counter :: "int option"
  last_tweet_pub_time :: "real option"
  task_stage :: "int option"

definition empty_stage :: stage where
  "empty_stage = \<lparr>max_position = None, counter = None, last_tweet_pub_time = None,
                    task_stage = None\<rparr>"

record item =
  item_id :: int
  publication_datetime :: real
  content :: string

record twit =
  twit_item :: item
  twit_stage :: stage

text \<open>
  \<^verbatim>\<open>items_html\<close> is modelled by the entries \<^verbatim>\<open>parse_tweets\<close> finds in it: for each, the
  keys it fills (\<^verbatim>\<open>id\<close> from \<^verbatim>\<open>data-item-id\<close>, \<^verbatim>\<open>publication_datetime\<close> from
  \<^verbatim>\<open>data-time\<close> or the clock, the rest of the markup) and the value it stores as
  \<^verbatim>\<open>last_tweet_pub_time\<close> (\<^verbatim>\<open>data-time-ms\<close>, or 0.0 without a timestamp).
\<close>

record entry =
  entry_item :: item
  data_time_ms :: real

definition parse_tweets :: "entry list \<Rightarrow> twit list" where
  "parse_tweets items_html =
     map (\<lambda>li. \<lparr>twit_item = entry_item li,
                twit_stage = \<lparr>max_position = Some [], counter = Some 0,
                               last_tweet_pub_time = Some (data_time_ms li),
                               task_stage = None\<rparr>\<rparr>) items_html"

text \<open>
  The JSON body of a search response: a dict with the three keys the code reads, or some
  other JSON value. \<open>items_html = None\<close> stands for a missing key and for markup on
  which \<^verbatim>\<open>parse_tweets\<close> raises \<^verbatim>\<open>TypeError\<close> or \<^verbatim>\<open>KeyError\<close>.
\<close>

record json_dict =
  items_html :: "entry list option"
  has_more_items :: "bool option"
  min_position :: "string option"

datatype json = Dict json_dict | Not_a_dict

text \<open>
  An HTTP response is seen through its status, what \<^verbatim>\<open>response.json()\<close> returns and
  whether its text holds a \<^verbatim>\<open>div\<close> of class \<^verbatim>\<open>protected\<close>. The network is the list of
  replies it will give, one per request, in order; a request with no reply left never
  returns (\<open>Pending\<close>).
\<close>

record response =
  status :: int
  json_body :: json
  protected_div :: bool

datatype reply = Answer response | Timed_out | Client_failed

datatype 'a outcome = Done 'a | Raised error | Pending

datatype 'a event = Get url | Sleep nat | Yield 'a

definition RESPONSE_DELAY :: nat where
  "RESPONSE_DELAY = 300"

section \<open>The fetcher and the profile check\<close>

text \<open>The URL that \<^verbatim>\<open>urlunparse\<close> builds from \<^verbatim>\<open>params\<close>.\<close>

definition search_url :: "string \<Rightarrow> string \<Rightarrow> url" where
  "search_url query max_pos =
     SEARCH_URL query (if max_pos \<noteq> [] then Some max_pos else None)"

fun get_query_response ::
  "string \<Rightarrow> string \<Rightarrow> reply list \<Rightarrow> 'a event list \<times> json outcome \<times> reply list" where
  "get_query_response query max_pos [] = ([Get (search_url query max_pos)], Pending, [])"
| "get_query_response query max_pos (r # rs) =
     (let url = search_url query max_pos in
      case r of
        Timed_out \<Rightarrow> ([Get url], Raised AsyncTimeoutError, rs)
      | Client_failed \<Rightarrow> ([Get url], Raised ClientError, rs)
      | Answer response \<Rightarrow>
          if status response \<noteq> 200 then
            if status response = 503 then
              (case get_query_response query max_pos rs of
                 (evs, out, rest) \<Rightarrow> (Get url # evs, out, rest))
            else if status response = 429 then
              (case get_query_response query max_pos rs of
                 (evs, out, rest) \<Rightarrow> (Get url # Sleep RESPONSE_DELAY # evs, out, rest))
            else if 500 \<le> status response \<and> status response < 527 then
              (case get_query_response query max_pos rs of
                 (evs, out, rest) \<Rightarrow> (Get url # Sleep RESPONSE_DELAY # evs, out, rest))
            else ([Get url], Raised (ApiError (Not_available url (status response))), rs)
          else ([Get url], Done (json_body response), rs))"

fun check_profile :: "string \<Rightarrow> reply list \<Rightarrow> 'a event list \<times> unit outcome \<times> reply list" where
  "check_profile profile [] = ([Get (MOBILE_URL profile)], Pending, [])"
| "check_profile profile (r # rs) =
     (let url = MOBILE_URL profile in
      case r of
        Timed_out \<Rightarrow> ([Get url], Raised AsyncTimeoutError, rs)
      | Client_failed \<Rightarrow> ([Get url], Raised ClientError, rs)
      | Answer response \<Rightarrow>
          if status response \<noteq> 200 then
            if status response = 503 then
              (case check_profile profile rs of
                 (evs, out, rest) \<Rightarrow> (Get url # evs, out, rest))
            else if status response = 429 then
              (case check_profile profile rs of
                 (evs, out, rest) \<Rightarrow> (Get url # Sleep RESPONSE_DELAY # evs, out, rest))
            else if 500 \<le> status response \<and> status response < 527 then
              (case check_profile profile rs of
                 (evs, out, rest) \<Rightarrow> (Get url # Sleep RESPONSE_DELAY # evs, out, rest))
            else if status response = 404 then ([Get url], Raised (InvalidProfile profile), rs)
            else ([Get url], Raised (ApiError (Not_available url (status response))), rs)
          else if protected_div response then ([Get url], Raised (PrivateProfile profile), rs)
          else ([Get url], Done (), rs))"

section \<open>The crawl stream\<close>

text \<open>
  \<^verbatim>\<open>_search\<close> is an asynchronous generator. Its run is the list of what it does, in
  order: the requests and pauses of its fetches and the twits it yields, then how it
  ends. A consumer that stops reading cuts the list at that yield.
\<close>

definition twits_of_response :: "json \<Rightarrow> (json_dict \<times> twit list) option" where
  "twits_of_response response =
     (case response of
        Not_a_dict \<Rightarrow> None
      | Dict d \<Rightarrow> (case items_html d of None \<Rightarrow> None
                   | Some html \<Rightarrow> Some (d, parse_tweets html)))"

text \<open>The \<^verbatim>\<open>for twit in twits\<close> loop, which the source writes twice.\<close>

fun emit_page :: "real \<Rightarrow> string \<Rightarrow> int \<Rightarrow> twit list \<Rightarrow> twit event list \<times> (error + int)" where
  "emit_page last_tweet_time max_pos count [] = ([], Inr count)"
| "emit_page last_tweet_time max_pos count (twit # rest) =
     (case last_tweet_pub_time (twit_stage twit) of
        None \<Rightarrow> ([], Inl KeyError)
      | Some pub_time \<Rightarrow>
          if last_tweet_time > pub_time then
            (case emit_page last_tweet_time max_pos (count + 1) rest of
               (evs, out) \<Rightarrow>
                 (Yield (twit\<lparr>twit_stage := (twit_stage twit)
                           \<lparr>counter := Some (count + 1), max_position := Some max_pos\<rparr>\<rparr>)
                    # evs, out))
          else emit_page last_tweet_time max_pos count rest)"

lemma get_query_response_shorter:
  "get_query_response query max_pos rs = (evs, Done j, rest) \<Longrightarrow> length rest < length rs"
proof (induction rs arbitrary: evs)
  case Nil
  then show ?case by simp
next
  case (Cons r rs)
  show ?case
  proof (cases r)
    case (Answer response)
    obtain evs' :: "'a event list" and out' rest'
      where rec: "get_query_response query max_pos rs = (evs', out', rest')"
      using prod_cases3 by blast
    from Cons.prems Answer rec have "rest = rs \<or> (out' = Done j \<and> rest' = rest)"
      by (auto simp: Let_def split: if_splits)
    then show ?thesis
    proof
      assume "rest = rs"
      then show ?thesis by simp
    next
      assume "out' = Done j \<and> rest' = rest"
      with rec Cons.IH [of evs'] show ?thesis by simp
    qed
  next
    case Timed_out
    with Cons.prems show ?thesis by simp
  next
    case Client_failed
    with Cons.prems show ?thesis by simp
  qed
qed

text \<open>The \<^verbatim>\<open>while twits\<close> loop.\<close>

function search_loop ::
  "string \<Rightarrow> real \<Rightarrow> int \<Rightarrow> int \<Rightarrow> json_dict \<Rightarrow> twit list \<Rightarrow> reply list
     \<Rightarrow> twit event list \<times> unit outcome \<times> reply list" where
  "search_loop query last_tweet_time min_tweet_id count response twits rs =
     (if twits = [] then ([], Done (), rs)
      else
        let max_tweet_id = item_id (twit_item (last twits));
            max_pos = (case min_position response of
                         Some p \<Rightarrow> p
                       | None \<Rightarrow> ''TWEET-'' @ str_int max_tweet_id @ ''-'' @ str_int min_tweet_id)
        in case get_query_response query max_pos rs of
             (evs, Pending, rest) \<Rightarrow> (evs, Pending, rest)
           | (evs, Raised e, rest) \<Rightarrow> (evs, Raised e, rest)
           | (evs, Done j, rest) \<Rightarrow>
               (case twits_of_response j of
                  None \<Rightarrow> (evs, Raised (ApiError Internal_response_error), rest)
                | Some (response', twits') \<Rightarrow>
                    (case emit_page last_tweet_time max_pos count twits' of
                       (ys, Inl e) \<Rightarrow> (evs @ ys, Raised e, rest)
                     | (ys, Inr count') \<Rightarrow>
                         (case search_loop query last_tweet_time min_tweet_id count'
                                 response' twits' rest of
                            (later, out, rest') \<Rightarrow> (evs @ ys @ later, out, rest')))))"
  by pat_completeness auto
termination
  by (relation "measure (\<lambda>(query, last_tweet_time, min_tweet_id, count, response, twits, rs).
                  length rs)")
     (auto dest: get_query_response_shorter [OF sym])

declare search_loop.simps [simp del]

definition inner_search ::
  "string \<Rightarrow> stage \<Rightarrow> real \<Rightarrow> reply list \<Rightarrow> twit event list \<times> unit outcome \<times> reply list" where
  "inner_search query stage time_now rs =
     (let max_pos = (case max_position stage of None \<Rightarrow> [] | Some p \<Rightarrow> p);
          count = (case counter stage of None \<Rightarrow> 0 | Some c \<Rightarrow> c);
          last_tweet_time = (case last_tweet_pub_time stage of
                               None \<Rightarrow> time_now * 1000 | Some t \<Rightarrow> t)
      in case get_query_response query max_pos rs of
           (evs, Pending, rest) \<Rightarrow> (evs, Pending, rest)
         | (evs, Raised e, rest) \<Rightarrow> (evs, Raised e, rest)
         | (evs, Done j, rest) \<Rightarrow>
             (case twits_of_response j of
                None \<Rightarrow> (evs, Raised (ApiError Internal_response_error), rest)
              | Some (response, twits) \<Rightarrow>
                  if twits = [] then (evs, Done (), rest)
                  else
                    let has_no_more_items = (has_more_items response \<noteq> Some True);
                        min_tweet_id = item_id (twit_item (hd twits))
                    in if max_pos \<noteq> [] \<or> has_no_more_items then
                         (case emit_page last_tweet_time max_pos count twits of
                            (ys, Inl e) \<Rightarrow> (evs @ ys, Raised e, rest)
                          | (ys, Inr count') \<Rightarrow>
                              if has_no_more_items then (evs @ ys, Done (), rest)
                              else
                                (case search_loop query last_tweet_time min_tweet_id count'
                                        response twits rest of
                                   (later, out, rest') \<Rightarrow> (evs @ ys @ later, out, rest')))
                       else
                         (case search_loop query last_tweet_time min_tweet_id count
                                 response twits rest of
                            (later, out, rest') \<Rightarrow> (evs @ later, out, rest'))))"

section \<open>The task runners\<close>

text \<open>
  The dict that a runner hands over, \<^verbatim>\<open>{'twits': [twit, ], 'stage': stage}\<close>, with its
  keys in the order of the literal. The stage has been popped from the twit by then.
\<close>

datatype envelope_value = Twits "item list" | Stage stage

type_synonym envelope = "(string \<times> envelope_value) list"

text \<open>
  The body of \<^verbatim>\<open>async for twit in self._search(...)\<close>, which the source writes three
  times: \<open>mark\<close> is what the body does to the popped stage before the test (nothing in
  \<^verbatim>\<open>search\<close>, \<^verbatim>\<open>stage['task_stage'] = task_stage\<close> in \<^verbatim>\<open>get_owner\<close>). The flag tells
  whether the body returned from the task.
\<close>

fun for_each_twit ::
  "int \<Rightarrow> (stage \<Rightarrow> stage) \<Rightarrow> twit event list \<Rightarrow> envelope event list \<times> bool" where
  "for_each_twit search_until mark [] = ([], False)"
| "for_each_twit search_until mark (Get u # steps) =
     (case for_each_twit search_until mark steps of (evs, stopped) \<Rightarrow> (Get u # evs, stopped))"
| "for_each_twit search_until mark (Sleep n # steps) =
     (case for_each_twit search_until mark steps of (evs, stopped) \<Rightarrow> (Sleep n # evs, stopped))"
| "for_each_twit search_until mark (Yield twit # steps) =
     (let stage = mark (twit_stage twit) in
      if publication_datetime (twit_item twit) < of_int search_until then ([], True)
      else (case for_each_twit search_until mark steps of
              (evs, stopped) \<Rightarrow>
                (Yield [(''twits'', Twits [twit_item twit]), (''stage'', Stage stage)] # evs, stopped)))"

definition emitter :: "'a event list \<times> unit outcome \<Rightarrow> 'a event list \<times> unit outcome" where
  "emitter run =
     (case run of
        (evs, Raised AsyncTimeoutError) \<Rightarrow> (evs @ [Sleep 1], Done ())
      | (evs, Raised ClientError) \<Rightarrow> (evs, Raised NonCriticalError)
      | (evs, out) \<Rightarrow> (evs, out))"

text \<open>
  The parameters of a task: \<open>strftime\<close> is
  \<^verbatim>\<open>datetime.fromtimestamp(t).strftime(DATE_FORMAT)\<close>, which depends on the time zone
  of the host, and \<open>time_now\<close> is what the clock reads when the stream starts.
\<close>

definition search ::
  "(int \<Rightarrow> string) \<Rightarrow> real \<Rightarrow> int \<Rightarrow> string \<Rightarrow> stage \<Rightarrow> reply list
     \<Rightarrow> envelope event list \<times> unit outcome" where
  "search strftime time_now last_execution_time search_query stage rs =
     emitter
       (let search_until = last_execution_time;
            since = (if search_until \<noteq> 0 then strftime search_until else [])
        in if search_query = [] then ([], Raised (ApiError Error_query_is_missing))
           else
             (case construct_query search_query [] False since [] 0 of
                Inl e \<Rightarrow> ([], Raised e)
              | Inr query \<Rightarrow>
                  (case inner_search query stage time_now rs of
                     (steps, out, rest) \<Rightarrow>
                       (case for_each_twit search_until (\<lambda>stage. stage) steps of
                          (evs, stopped) \<Rightarrow> (evs, if stopped then Done () else out)))))"

text \<open>Stage 2 of \<^verbatim>\<open>get_owner\<close>, from \<^verbatim>\<open>task_stage = 2\<close> to the end of the function.\<close>

definition stage_two ::
  "string \<Rightarrow> string \<Rightarrow> int \<Rightarrow> stage \<Rightarrow> real \<Rightarrow> reply list \<Rightarrow> envelope event list \<times> unit outcome"
  where
  "stage_two profile since search_until stage time_now rs =
     (let phase = 2 in
      case construct_query [] profile True since [] 0 of
        Inl e \<Rightarrow> ([], Raised e)
      | Inr query \<Rightarrow>
          (case inner_search query stage time_now rs of
             (steps, out, rest) \<Rightarrow>
               (case for_each_twit search_until (\<lambda>stage. stage\<lparr>task_stage := Some phase\<rparr>) steps of
                  (evs, stopped) \<Rightarrow> (evs, if stopped then Done () else out))))"

text \<open>
  \<open>time_now\<close> is the clock when stage 1 starts (or stage 2, when the task resumes
  there) and \<open>time_later\<close> the clock when stage 2 starts after stage 1.
\<close>

definition get_owner ::
  "(int \<Rightarrow> string) \<Rightarrow> real \<Rightarrow> real \<Rightarrow> int \<Rightarrow> string \<Rightarrow> stage \<Rightarrow> reply list
     \<Rightarrow> envelope event list \<times> unit outcome" where
  "get_owner strftime time_now time_later last_execution_time owner_id stage rs =
     emitter
       (let search_until = last_execution_time;
            since = (if search_until \<noteq> 0 then strftime search_until else []);
            profile = owner_id
        in if profile = [] then ([], Raised (ApiError Owner_id_is_missing))
           else
             (case check_profile profile rs of
                (checks, Pending, rest) \<Rightarrow> (checks, Pending)
              | (checks, Raised e, rest) \<Rightarrow> (checks, Raised e)
              | (checks, Done u, rest) \<Rightarrow>
                  let phase = (case task_stage stage of None \<Rightarrow> 1 | Some k \<Rightarrow> k) in
                  if phase = 1 then
                    (case construct_query [] profile False since [] 0 of
                       Inl e \<Rightarrow> (checks, Raised e)
                     | Inr query \<Rightarrow>
                         (case inner_search query stage time_now rest of
                            (steps, out, rest') \<Rightarrow>
                              (case for_each_twit search_until
                                      (\<lambda>stage. stage\<lparr>task_stage := Some phase\<rparr>) steps of
                                 (evs, stopped) \<Rightarrow>
                                   if stopped then (checks @ evs, Done ())
                                   else
                                     (case out of
                                        Done u \<Rightarrow>
                                          (case stage_two profile since search_until empty_stage
                                                  time_later rest' of
                                             (evs', out') \<Rightarrow> (checks @ evs @ evs', out'))
                                      | Raised e \<Rightarrow> (checks @ evs, Raised e)
                                      | Pending \<Rightarrow> (checks @ evs, Pending)))))
                  else
                    (case stage_two profile since search_until stage time_now rest of
                       (evs', out') \<Rightarrow> (checks @ evs', out'))))"

section \<open>What a run shows\<close>

fun yields :: "'a event list \<Rightarrow> 'a list" where
  "yields [] = []"
| "yields (Yield x # evs) = x # yields evs"
| "yields (Get u # evs) = yields evs"
| "yields (Sleep n # evs) = yields evs"

fun requests :: "'a event list \<Rightarrow> url list" where
  "requests [] = []"
| "requests (Get u # evs) = u # requests evs"
| "requests (Yield x # evs) = requests evs"
| "requests (Sleep n # evs) = requests evs"

fun pauses :: "'a event list \<Rightarrow> nat list" where
  "pauses [] = []"
| "pauses (Sleep n # evs) = n # pauses evs"
| "pauses (Get u # evs) = pauses evs"
| "pauses (Yield x # evs) = pauses evs"

text \<open>
  What the loop body of a runner makes of one step of the stream, and the test that ends
  the task.
\<close>

fun deliver :: "(stage \<Rightarrow> stage) \<Rightarrow> twit event \<Rightarrow> envelope event" where
  "deliver mark (Get u) = Get u"
| "deliver mark (Sleep n) = Sleep n"
| "deliver mark (Yield twit) =
     Yield [(''twits'', Twits [twit_item twit]), (''stage'', Stage (mark (twit_stage twit)))]"

fun hard_stop :: "int \<Rightarrow> twit event \<Rightarrow> bool" where
  "hard_stop search_until (Yield twit) \<longleftrightarrow>
     publication_datetime (twit_item twit) < of_int search_until"
| "hard_stop search_until (Get u) \<longleftrightarrow> False"
| "hard_stop search_until (Sleep n) \<longleftrightarrow> False"

text \<open>The twits that an envelope holds under \<^verbatim>\<open>'twits'\<close>, none when it has no such key.\<close>

definition twits_of :: "envelope \<Rightarrow> item list" where
  "twits_of e = (case map_of e ''twits'' of Some (Twits xs) \<Rightarrow> xs | _ \<Rightarrow> [])"

text \<open>A reply with status 200 and a dict as its body, and the entries of such a page.\<close>

definition ok_reply :: "json_dict \<Rightarrow> reply" where
  "ok_reply d = Answer \<lparr>status = 200, json_body = Dict d, protected_div = False\<rparr>"

definition entries :: "json_dict \<Rightarrow> entry list" where
  "entries d = (case items_html d of None \<Rightarrow> [] | Some es \<Rightarrow> es)"

text \<open>All the entries that the replies of a network hold.\<close>

fun reply_entries :: "reply \<Rightarrow> entry list" where
  "reply_entries (Answer r) = (case json_body r of Dict d \<Rightarrow> entries d | Not_a_dict \<Rightarrow> [])"
| "reply_entries Timed_out = []"
| "reply_entries Client_failed = []"

definition script_entries :: "reply list \<Rightarrow> entry list" where
  "script_entries rs = concat (map reply_entries rs)"

text \<open>
  The pages that the fetches of one stream return on a network, in order: a reply that
  the fetcher answers by asking again is passed over, and the first reply that is not a
  page ends the list as it ends the stream.
\<close>

definition retried :: "reply \<Rightarrow> bool" where
  "retried r \<longleftrightarrow>
     (case r of
        Answer x \<Rightarrow> status x = 503 \<or> status x = 429 \<or> (500 \<le> status x \<and> status x < 527)
      | Timed_out \<Rightarrow> False
      | Client_failed \<Rightarrow> False)"

fun pages_read :: "reply list \<Rightarrow> json_dict list" where
  "pages_read [] = []"
| "pages_read (r # rs) =
     (if retried r then pages_read rs
      else (case r of
              Answer x \<Rightarrow>
                (if status x = 200
                 then (case json_body x of Dict d \<Rightarrow> d # pages_read rs | Not_a_dict \<Rightarrow> [])
                 else [])
            | Timed_out \<Rightarrow> []
            | Client_failed \<Rightarrow> []))"

section \<open>Properties of parse_url\<close>









section \<open>Properties of construct_query\<close>




section \<open>Properties of the fetcher\<close>

text \<open>
  C6. How \<open>get_query_response\<close> treats the status of an answer: 200 returns the decoded
  body; 503 asks again at once; 429 and the other statuses from 500 to 526 pause for
  \<open>RESPONSE_DELAY\<close> = 300 seconds and ask again; every other status raises \<^verbatim>\<open>ApiError\<close>
  with the URL and the status. So the answers 503, 429, 200 to one query and cursor make
  three requests and one pause of 300 seconds, and the call returns the body of the third.
\<close>

theorem get_query_response_classification:
  "(status r = 200 \<longrightarrow>
      get_query_response query max_pos (Answer r # rs)
        = ([Get (search_url query max_pos)], Done (json_body r), rs))
   \<and> (status r = 503 \<longrightarrow>
      get_query_response query max_pos (Answer r # rs)
        = (case get_query_response query max_pos rs of
             (evs, out, rest) \<Rightarrow> (Get (search_url query max_pos) # evs, out, rest)))
   \<and> (status r = 429 \<or> (500 \<le> status r \<and> status r \<le> 526 \<and> status r \<noteq> 503) \<longrightarrow>
      get_query_response query max_pos (Answer r # rs)
        = (case get_query_response query max_pos rs of
             (evs, out, rest) \<Rightarrow>
               (Get (search_url query max_pos) # Sleep 300 # evs, out, rest)))
   \<and> (status r \<noteq> 200 \<and> status r \<noteq> 429 \<and> \<not> (500 \<le> status r \<and> status r \<le> 526) \<longrightarrow>
      get_query_response query max_pos (Answer r # rs)
        = ([Get (search_url query max_pos)],
           Raised (ApiError (Not_available (search_url query max_pos) (status r))), rs))
   \<and> get_query_response query max_pos
        (Answer (r1\<lparr>status := 503\<rparr>) # Answer (r2\<lparr>status := 429\<rparr>)
           # Answer (r3\<lparr>status := 200\<rparr>) # rs)
        = ([Get (search_url query max_pos), Get (search_url query max_pos), Sleep 300,
            Get (search_url query max_pos)], Done (json_body r3), rs)"
  by (auto simp: RESPONSE_DELAY_def Let_def)

text \<open>One answer for each of the four kinds of status, on a network with no other reply.\<close>

theorem get_query_response_classification_witness:
  "get_query_response ''q'' ''c''
      (Answer \<lparr>status = 200, json_body = Not_a_dict, protected_div = False\<rparr> # [])
     = ([Get (search_url ''q'' ''c'') :: unit event], Done Not_a_dict, [])
   \<and> get_query_response ''q'' ''c''
      (Answer \<lparr>status = 503, json_body = Not_a_dict, protected_div = False\<rparr> # [])
     = ([Get (search_url ''q'' ''c''), Get (search_url ''q'' ''c'') :: unit event], Pending, [])
   \<and> get_query_response ''q'' ''c''
      (Answer \<lparr>status = 500, json_body = Not_a_dict, protected_div = False\<rparr> # [])
     = ([Get (search_url ''q'' ''c''), Sleep 300, Get (search_url ''q'' ''c'') :: unit event],
        Pending, [])
   \<and> get_query_response ''q'' ''c''
      (Answer \<lparr>status = 404, json_body = Not_a_dict, protected_div = False\<rparr> # [])
     = ([Get (search_url ''q'' ''c'') :: unit event],
        Raised (ApiError (Not_available (search_url ''q'' ''c'') 404)), [])"
  using
    get_query_response_classification
      [of "\<lparr>status = 200, json_body = Not_a_dict, protected_div = False\<rparr>" "''q''" "''c''" "[]"]
    get_query_response_classification
      [of "\<lparr>status = 503, json_body = Not_a_dict, protected_div = False\<rparr>" "''q''" "''c''" "[]"]
    get_query_response_classification
      [of "\<lparr>status = 500, json_body = Not_a_dict, protected_div = False\<rparr>" "''q''" "''c''" "[]"]
    get_query_response_classification
      [of "\<lparr>status = 404, json_body = Not_a_dict, protected_div = False\<rparr>" "''q''" "''c''" "[]"]
  by simp

section \<open>Runs: what a list of steps shows\<close>

lemma for_each_twit_eq:
  "for_each_twit T mark steps =
     (map (deliver mark) (takeWhile (\<lambda>ev. \<not> hard_stop T ev) steps),
      \<exists>ev \<in> set steps. hard_stop T ev)"
proof (induction steps)
  case Nil
  show ?case by simp
next
  case (Cons ev steps)
  then show ?case by (cases ev) (simp_all add: Let_def)
qed

lemma yields_append: "yields (xs @ ys) = yields xs @ yields ys"
  by (induction xs rule: yields.induct) simp_all

lemma requests_append: "requests (xs @ ys) = requests xs @ requests ys"
  by (induction xs rule: requests.induct) simp_all

lemma pauses_append: "pauses (xs @ ys) = pauses xs @ pauses ys"
  by (induction xs rule: pauses.induct) simp_all

lemma yields_iff: "x \<in> set (yields evs) \<longleftrightarrow> Yield x \<in> set evs"
  by (induction evs rule: yields.induct) auto

lemma yields_Nil_iff: "yields evs = [] \<longleftrightarrow> (\<forall>x. Yield x \<notin> set evs)"
  by (induction evs rule: yields.induct) auto

lemma requests_iff: "u \<in> set (requests evs) \<longleftrightarrow> Get u \<in> set evs"
  by (induction evs rule: requests.induct) auto

lemma requests_deliver: "requests (map (deliver mark) steps) = requests steps"
  by (induction steps rule: requests.induct) simp_all

lemma yields_deliver:
  "yields (map (deliver mark) steps)
     = map (\<lambda>t. [(''twits'', Twits [twit_item t]), (''stage'', Stage (mark (twit_stage t)))]) (yields steps)"
  by (induction steps rule: yields.induct) simp_all

lemma emitter_fst_cases:
  "fst (emitter (evs, out)) = evs \<or> fst (emitter (evs, out)) = evs @ [Sleep 1]"
  by (auto simp: emitter_def split: outcome.splits  error.splits)

lemma yields_emitter: "yields (fst (emitter (evs, out))) = yields evs"
  using emitter_fst_cases [of evs out] by (auto simp: yields_append)

lemma requests_emitter: "requests (fst (emitter (evs, out))) = requests evs"
  using emitter_fst_cases [of evs out] by (auto simp: requests_append)

subsection \<open>The fetches\<close>

lemma get_query_response_events:
  "set (fst (get_query_response query max_pos rs))
     \<subseteq> {Get (search_url query max_pos), Sleep RESPONSE_DELAY}"
proof (induction rs)
  case Nil
  show ?case by simp
next
  case (Cons r rs)
  obtain evs :: "'a event list" and out rest
    where rec: "get_query_response query max_pos rs = (evs, out, rest)"
    using prod_cases3 by blast
  with Cons show ?case
    by (cases r) (auto simp: Let_def)
qed

lemma check_profile_events:
  "set (fst (check_profile profile rs)) \<subseteq> {Get (MOBILE_URL profile), Sleep RESPONSE_DELAY}"
proof (induction rs)
  case Nil
  show ?case by simp
next
  case (Cons r rs)
  obtain evs :: "'a event list" and out rest
    where rec: "check_profile profile rs = (evs, out, rest)"
    using prod_cases3 by blast
  with Cons show ?case
    by (cases r) (auto simp: Let_def)
qed

lemma check_profile_first:
  "\<exists>evs. fst (check_profile profile rs) = Get (MOBILE_URL profile) # evs"
proof (cases rs)
  case Nil
  then show ?thesis by simp
next
  case (Cons r rs')
  obtain evs :: "'a event list" and out rest
    where rec: "check_profile profile rs' = (evs, out, rest)"
    using prod_cases3 by blast
  with Cons show ?thesis
    by (cases r) (auto simp: Let_def)
qed

lemma get_query_response_ok [simp]:
  "get_query_response query max_pos (ok_reply d # rs)
     = ([Get (search_url query max_pos)], Done (Dict d), rs)"
  by (simp add: ok_reply_def)

declare get_query_response.simps(2) [simp del] check_profile.simps(2) [simp del]

section \<open>The stream, page by page\<close>

subsection \<open>One page\<close>




lemma pauses_only_yields: "set evs \<subseteq> range Yield \<Longrightarrow> pauses evs = []"
  by (induction evs rule: pauses.induct) auto


lemma emit_page_below_eq:
  "emit_page wm mp c twits = (ys, out) \<Longrightarrow> Yield t \<in> set ys \<Longrightarrow>
     \<exists>pub_time. last_tweet_pub_time (twit_stage t) = Some pub_time \<and> pub_time < wm"
proof (induction twits arbitrary: c ys out)
  case Nil
  then show ?case by simp
next
  case (Cons twit twits)
  show ?case
  proof (cases "last_tweet_pub_time (twit_stage twit)")
    case None
    with Cons.prems show ?thesis by simp
  next
    case (Some pub_time)
    show ?thesis
    proof (cases "wm > pub_time")
      case True
      obtain evs out' where rec: "emit_page wm mp (c + 1) twits = (evs, out')"
        by (cases "emit_page wm mp (c + 1) twits") blast
      with Cons.prems Some True
      have "t = twit\<lparr>twit_stage := (twit_stage twit)
                  \<lparr>counter := Some (c + 1), max_position := Some mp\<rparr>\<rparr> \<or> Yield t \<in> set evs"
        by auto
      then show ?thesis
      proof
        assume "Yield t \<in> set evs"
        with rec show ?thesis by (rule Cons.IH)
      next
        assume "t = twit\<lparr>twit_stage := (twit_stage twit)
                  \<lparr>counter := Some (c + 1), max_position := Some mp\<rparr>\<rparr>"
        with Some True show ?thesis by simp
      qed
    next
      case False
      with Cons.prems Some have "emit_page wm mp c twits = (ys, out)" by simp
      then show ?thesis using Cons.prems(2) by (rule Cons.IH)
    qed
  qed
qed

lemma emit_page_below:
  "Yield t \<in> set (fst (emit_page wm mp c twits)) \<Longrightarrow>
     \<exists>pub_time. last_tweet_pub_time (twit_stage t) = Some pub_time \<and> pub_time < wm"
  using emit_page_below_eq [of wm mp c twits] by (cases "emit_page wm mp c twits") simp

lemma emit_page_parsed:
  "\<exists>ys c'. emit_page wm mp c (parse_tweets es) = (ys, Inr c')
      \<and> map twit_item (yields ys)
          = map entry_item (filter (\<lambda>e. data_time_ms e < wm) es)"
proof (induction es arbitrary: c)
  case Nil
  show ?case by (simp add: parse_tweets_def)
next
  case (Cons e es)
  show ?case
  proof (cases "data_time_ms e < wm")
    case True
    from Cons [of "c + 1"] obtain ys c' where
      "emit_page wm mp (c + 1) (parse_tweets es) = (ys, Inr c')"
      "map twit_item (yields ys) = map entry_item (filter (\<lambda>e. data_time_ms e < wm) es)"
      by blast
    with True show ?thesis by (simp add: parse_tweets_def)
  next
    case False
    from Cons [of c] obtain ys c' where
      "emit_page wm mp c (parse_tweets es) = (ys, Inr c')"
      "map twit_item (yields ys) = map entry_item (filter (\<lambda>e. data_time_ms e < wm) es)"
      by blast
    with False show ?thesis by (simp add: parse_tweets_def)
  qed
qed

lemma twits_of_response_Dict:
  "twits_of_response (Dict d) =
     (case items_html d of None \<Rightarrow> None | Some es \<Rightarrow> Some (d, parse_tweets es))"
  by (simp add: twits_of_response_def)

lemma parse_tweets_Nil_iff [simp]: "parse_tweets es = [] \<longleftrightarrow> es = []"
  by (simp add: parse_tweets_def)



lemma parse_tweets_Nil [simp]: "parse_tweets [] = []"
  by (simp add: parse_tweets_def)

lemma search_loop_Nil [simp]: "search_loop q wm mn c resp [] rs = ([], Done (), rs)"
  by (simp add: search_loop.simps)

subsection \<open>The loop on a network that answers every request with a page\<close>


subsection \<open>The stream on a network that answers every request with a page\<close>


subsection \<open>The stream on any network\<close>

lemma get_query_response_Done_split:
  "get_query_response q mp rs = (evs, Done j, rest) \<Longrightarrow>
     \<exists>pre r. rs = pre @ Answer r # rest \<and> json_body r = j"
proof (induction rs arbitrary: evs)
  case Nil
  then show ?case by simp
next
  case (Cons a rs)
  show ?case
  proof (cases a)
    case (Answer x)
    obtain evs' :: "'a event list" and out' rest'
      where rec: "get_query_response q mp rs = (evs', out', rest')"
      using prod_cases3 by blast
    from Cons.prems Answer rec
    have "(rest = rs \<and> json_body x = j) \<or> (out' = Done j \<and> rest' = rest)"
      by (auto simp: get_query_response.simps(2) Let_def split: if_splits)
    then show ?thesis
    proof
      assume "rest = rs \<and> json_body x = j"
      with Answer have "a # rs = [] @ Answer x # rest \<and> json_body x = j" by simp
      then show ?thesis by blast
    next
      assume "out' = Done j \<and> rest' = rest"
      with rec Cons.IH [of evs'] obtain pre r where "rs = pre @ Answer r # rest" "json_body r = j"
        by blast
      then have "a # rs = (a # pre) @ Answer r # rest \<and> json_body r = j" by simp
      then show ?thesis by blast
    qed
  next
    case Timed_out
    with Cons.prems show ?thesis by (simp add: get_query_response.simps(2))
  next
    case Client_failed
    with Cons.prems show ?thesis by (simp add: get_query_response.simps(2))
  qed
qed


lemma get_query_response_Done_rest:
  assumes "get_query_response q mp rs = (evs, Done j, rest)"
  shows "set (script_entries rest) \<subseteq> set (script_entries rs)"
proof -
  from assms obtain pre r where "rs = pre @ Answer r # rest"
    using get_query_response_Done_split by blast
  then show ?thesis by (auto simp: script_entries_def)
qed







subsection \<open>What the stream yields and requests, page by page\<close>



subsection \<open>What the stream yields on any network\<close>

lemma pages_read_fetch:
  "get_query_response q mp rs = (evs, out, rest) \<Longrightarrow>
     pages_read rs = (case out of Done (Dict d) \<Rightarrow> d # pages_read rest | _ \<Rightarrow> [])"
proof (induction rs arbitrary: evs)
  case Nil
  then show ?case by simp
next
  case (Cons a rs)
  show ?case
  proof (cases a)
    case (Answer x)
    obtain evs' :: "'a event list" and out' rest'
      where rec: "get_query_response q mp rs = (evs', out', rest')"
      using prod_cases3 by blast
    show ?thesis
    proof (cases "retried a")
      case True
      with Answer have st: "status x = 503 \<or> status x = 429 \<or> (500 \<le> status x \<and> status x < 527)"
        by (simp add: retried_def)
      with Cons.prems Answer rec have "out' = out" "rest' = rest"
        by (auto simp: get_query_response.simps(2) Let_def split: if_splits)
      with rec Cons.IH [of evs'] True show ?thesis by simp
    next
      case False
      with Answer have st: "\<not> (status x = 503 \<or> status x = 429 \<or> (500 \<le> status x \<and> status x < 527))"
        by (simp add: retried_def)
      with Cons.prems Answer False show ?thesis
        by (auto simp: get_query_response.simps(2) Let_def split: if_splits json.splits)
    qed
  next
    case Timed_out
    with Cons.prems show ?thesis by (auto simp: get_query_response.simps(2) retried_def)
  next
    case Client_failed
    with Cons.prems show ?thesis by (auto simp: get_query_response.simps(2) retried_def)
  qed
qed

lemma get_query_response_yields: "yields (fst (get_query_response q mp rs)) = []"
  unfolding yields_Nil_iff using get_query_response_events [of q mp rs] by auto

lemma search_loop_yields:
  "twits \<noteq> [] \<Longrightarrow>
   map twit_item (yields (fst (search_loop q wm mn c resp twits rs)))
     = concat (map (\<lambda>d. map entry_item (filter (\<lambda>e. data_time_ms e < wm) (entries d)))
                (takeWhile (\<lambda>d. entries d \<noteq> []) (pages_read rs)))"
proof (induction "length rs" arbitrary: rs c resp twits rule: less_induct)
  case less
  let ?mp = "case min_position resp of Some p \<Rightarrow> p
             | None \<Rightarrow> ''TWEET-'' @ str_int (item_id (twit_item (last twits))) @ ''-'' @ str_int mn"
  let ?fresh = "\<lambda>d. map entry_item (filter (\<lambda>e. data_time_ms e < wm) (entries d))"
  obtain evs :: "twit event list" and out rest
    where f: "get_query_response q ?mp rs = (evs, out, rest)"
    using prod_cases3 by blast
  have evs: "yields evs = []"
    using get_query_response_yields [of q ?mp rs, where ?'a = twit] f by simp
  note pages = pages_read_fetch [OF f]
  note unfold = search_loop.simps [of q wm mn c resp twits rs]
  show ?case
  proof (cases out)
    case (Done j)
    show ?thesis
    proof (cases j)
      case Not_a_dict
      with less.prems f Done evs pages show ?thesis
        by (simp add: unfold Let_def twits_of_response_def)
    next
      case (Dict d)
      show ?thesis
      proof (cases "items_html d")
        case None
        with less.prems f Done Dict evs pages show ?thesis
          by (simp add: unfold Let_def twits_of_response_Dict entries_def)
      next
        case (Some es)
        then have ent: "entries d = es" by (simp add: entries_def)
        obtain ys c' where ys: "emit_page wm ?mp c (parse_tweets es) = (ys, Inr c')"
          and ys_items: "map twit_item (yields ys) = ?fresh d"
          using emit_page_parsed [of wm ?mp c es] ent by auto
        obtain later out' rest' where
          rec: "search_loop q wm mn c' d (parse_tweets es) rest = (later, out', rest')"
          using prod_cases3 by blast
        have step: "fst (search_loop q wm mn c resp twits rs) = evs @ ys @ later"
          using less.prems f Done Dict Some ys rec
          by (simp add: unfold Let_def twits_of_response_Dict)
        have later: "map twit_item (yields later)
                       = (if es = [] then []
                          else concat (map ?fresh (takeWhile (\<lambda>d. entries d \<noteq> []) (pages_read rest))))"
        proof (cases "es = []")
          case True
          with rec show ?thesis by simp
        next
          case False
          have "length rest < length rs"
            using f Done get_query_response_shorter by blast
          then have "map twit_item (yields (fst (search_loop q wm mn c' d (parse_tweets es) rest)))
                       = concat (map ?fresh (takeWhile (\<lambda>d. entries d \<noteq> []) (pages_read rest)))"
            using False by (intro less.hyps) simp_all
          with rec False show ?thesis by simp
        qed
        from pages Done Dict have "pages_read rs = d # pages_read rest" by simp
        with step evs ys_items later ent show ?thesis
          by (simp add: yields_append)
      qed
    qed
  next
    case (Raised e)
    with less.prems f evs pages show ?thesis
      by (simp add: unfold Let_def)
  next
    case Pending
    with less.prems f evs pages show ?thesis
      by (simp add: unfold Let_def)
  qed
qed

lemma inner_search_yields_pages:
  "map twit_item (yields (fst (inner_search q st now rs)))
     = (let wm = (case last_tweet_pub_time st of None \<Rightarrow> now * 1000 | Some t \<Rightarrow> t);
            fresh = (\<lambda>d. map entry_item (filter (\<lambda>e. data_time_ms e < wm) (entries d)))
        in case pages_read rs of
             [] \<Rightarrow> []
           | d # ds \<Rightarrow>
               (if (case max_position st of None \<Rightarrow> [] | Some p \<Rightarrow> p) \<noteq> []
                   \<or> has_more_items d \<noteq> Some True
                then fresh d else [])
               @ (if entries d \<noteq> [] \<and> has_more_items d = Some True
                  then concat (map fresh (takeWhile (\<lambda>d. entries d \<noteq> []) ds)) else []))"
proof -
  define mp where "mp = (case max_position st of None \<Rightarrow> [] | Some p \<Rightarrow> p)"
  define c0 where "c0 = (case counter st of None \<Rightarrow> 0 | Some c \<Rightarrow> c)"
  define wm where "wm = (case last_tweet_pub_time st of None \<Rightarrow> now * 1000 | Some t \<Rightarrow> t)"
  let ?mp = mp and ?c = c0 and ?wm = wm
  let ?fresh = "\<lambda>d. map entry_item (filter (\<lambda>e. data_time_ms e < ?wm) (entries d))"
  note defs = mp_def [symmetric] c0_def [symmetric] wm_def [symmetric]
  obtain evs :: "twit event list" and out rest
    where f: "get_query_response q ?mp rs = (evs, out, rest)"
    using prod_cases3 by blast
  have evs: "yields evs = []"
    using get_query_response_yields [of q ?mp rs, where ?'a = twit] f by simp
  note pages = pages_read_fetch [OF f]
  show ?thesis
  proof (cases out)
    case (Done j)
    show ?thesis
    proof (cases j)
      case Not_a_dict
      with f Done evs pages show ?thesis
        by (simp add: inner_search_def Let_def defs twits_of_response_def)
    next
      case (Dict d)
      with pages Done have pr: "pages_read rs = d # pages_read rest" by simp
      show ?thesis
      proof (cases "items_html d")
        case None
        with f Done Dict evs pr show ?thesis
          by (simp add: inner_search_def Let_def defs twits_of_response_Dict entries_def)
      next
        case (Some es)
        then have ent: "entries d = es" by (simp add: entries_def)
        show ?thesis
        proof (cases "es = []")
          case True
          with f Done Dict Some evs pr ent show ?thesis
            by (simp add: inner_search_def Let_def defs twits_of_response_Dict)
        next
          case False
          obtain ys c' where ys: "emit_page ?wm ?mp ?c (parse_tweets es) = (ys, Inr c')"
            and ys_items: "map twit_item (yields ys) = ?fresh d"
            using emit_page_parsed [of ?wm ?mp ?c es] ent by auto
          have loop: "\<And>c. map twit_item (yields (fst (search_loop q ?wm
                                 (item_id (twit_item (hd (parse_tweets es)))) c d
                                 (parse_tweets es) rest)))
                = concat (map ?fresh (takeWhile (\<lambda>d. entries d \<noteq> []) (pages_read rest)))"
            using False by (intro search_loop_yields) simp
          have rest: "mp = [] \<Longrightarrow>
                snd (snd (get_query_response q [] rs
                            :: twit event list \<times> json outcome \<times> reply list)) = rest"
            using f by auto
          show ?thesis
            using f Done Dict Some False evs pr ent ys ys_items loop
            by (simp add: inner_search_def Let_def defs twits_of_response_Dict yields_append
                  case_prod_beta rest get_query_response_yields)
        qed
      qed
    qed
  next
    case (Raised e)
    with f evs pages show ?thesis
      by (simp add: inner_search_def Let_def defs)
  next
    case Pending
    with f evs pages show ?thesis
      by (simp add: inner_search_def Let_def defs)
  qed
qed

section \<open>Properties of the crawl stream\<close>

text \<open>
  C2, as the code has it. Take a run of the stream on any network, and the pages that its
  fetches return. The watermark is the \<^verbatim>\<open>last_tweet_pub_time\<close> of the checkpoint, or the
  clock in milliseconds when the checkpoint has none. An entry of the first page is yielded
  if and only if its time in milliseconds is below the watermark and the page was fetched
  with a non-empty cursor or does not report more items. An entry of a later page is
  yielded if and only if its time is below the watermark, whatever cursor the page was
  fetched with; the later pages are read when the first page has entries and reports more
  items, up to the first page without entries. In particular a first page fetched with an
  empty cursor that reports more items yields nothing.
\<close>

theorem inner_search_emits:
  "map twit_item (yields (fst (inner_search q st now rs)))
     = (let watermark = (case last_tweet_pub_time st of None \<Rightarrow> now * 1000 | Some t \<Rightarrow> t);
            fresh = (\<lambda>d. map entry_item (filter (\<lambda>e. data_time_ms e < watermark) (entries d)))
        in case pages_read rs of
             [] \<Rightarrow> []
           | d # ds \<Rightarrow>
               (if (case max_position st of None \<Rightarrow> [] | Some p \<Rightarrow> p) \<noteq> []
                   \<or> has_more_items d \<noteq> Some True
                then fresh d else [])
               @ (if entries d \<noteq> [] \<and> has_more_items d = Some True
                  then concat (map fresh (takeWhile (\<lambda>d. entries d \<noteq> []) ds)) else []))
   \<and> ((case max_position st of None \<Rightarrow> [] | Some p \<Rightarrow> p) = []
        \<and> pages_read rs = [first] \<and> has_more_items first = Some True
        \<longrightarrow> yields (fst (inner_search q st now rs)) = [])"
proof
  show "map twit_item (yields (fst (inner_search q st now rs)))
     = (let watermark = (case last_tweet_pub_time st of None \<Rightarrow> now * 1000 | Some t \<Rightarrow> t);
            fresh = (\<lambda>d. map entry_item (filter (\<lambda>e. data_time_ms e < watermark) (entries d)))
        in case pages_read rs of
             [] \<Rightarrow> []
           | d # ds \<Rightarrow>
               (if (case max_position st of None \<Rightarrow> [] | Some p \<Rightarrow> p) \<noteq> []
                   \<or> has_more_items d \<noteq> Some True
                then fresh d else [])
               @ (if entries d \<noteq> [] \<and> has_more_items d = Some True
                  then concat (map fresh (takeWhile (\<lambda>d. entries d \<noteq> []) ds)) else []))"
    by (rule inner_search_yields_pages)
  show "(case max_position st of None \<Rightarrow> [] | Some p \<Rightarrow> p) = []
        \<and> pages_read rs = [first] \<and> has_more_items first = Some True
        \<longrightarrow> yields (fst (inner_search q st now rs)) = []"
  proof
    assume a: "(case max_position st of None \<Rightarrow> [] | Some p \<Rightarrow> p) = []
               \<and> pages_read rs = [first] \<and> has_more_items first = Some True"
    have "map twit_item (yields (fst (inner_search q st now rs))) = []"
      unfolding inner_search_yields_pages using a by (simp add: Let_def)
    then show "yields (fst (inner_search q st now rs)) = []" by simp
  qed
qed

text \<open>A fresh task whose first request is answered with 503 and then with a page that reports
  more items: only the second page is yielded, and of it only the entry below the watermark of
  100000 ms. With the first page alone nothing is yielded.\<close>

theorem inner_search_emits_witness:
  "map twit_item
     (yields (fst (inner_search ''q'' empty_stage 100
        [Answer \<lparr>status = 503, json_body = Not_a_dict, protected_div = False\<rparr>,
         ok_reply \<lparr>items_html = Some [\<lparr>entry_item = \<lparr>item_id = 3, publication_datetime = 90,
                                               content = []\<rparr>, data_time_ms = 90000\<rparr>],
              has_more_items = Some True, min_position = None\<rparr>,
         ok_reply \<lparr>items_html = Some [\<lparr>entry_item = \<lparr>item_id = 2, publication_datetime = 80,
                                               content = []\<rparr>, data_time_ms = 80000\<rparr>,
                                \<lparr>entry_item = \<lparr>item_id = 1, publication_datetime = 200,
                                               content = []\<rparr>, data_time_ms = 200000\<rparr>],
              has_more_items = Some True, min_position = None\<rparr>])))
     = [\<lparr>item_id = 2, publication_datetime = 80, content = []\<rparr>]
   \<and> yields (fst (inner_search ''q'' empty_stage 100
        [ok_reply \<lparr>items_html = Some [\<lparr>entry_item = \<lparr>item_id = 3, publication_datetime = 90,
                                               content = []\<rparr>, data_time_ms = 90000\<rparr>],
              has_more_items = Some True, min_position = None\<rparr>])) = []"
  using inner_search_emits
    [of "''q''" empty_stage 100
       "[Answer \<lparr>status = 503, json_body = Not_a_dict, protected_div = False\<rparr>,
         ok_reply \<lparr>items_html = Some [\<lparr>entry_item = \<lparr>item_id = 3, publication_datetime = 90,
                                               content = []\<rparr>, data_time_ms = 90000\<rparr>],
              has_more_items = Some True, min_position = None\<rparr>,
         ok_reply \<lparr>items_html = Some [\<lparr>entry_item = \<lparr>item_id = 2, publication_datetime = 80,
                                               content = []\<rparr>, data_time_ms = 80000\<rparr>,
                                \<lparr>entry_item = \<lparr>item_id = 1, publication_datetime = 200,
                                               content = []\<rparr>, data_time_ms = 200000\<rparr>],
              has_more_items = Some True, min_position = None\<rparr>]"]
    inner_search_emits
    [of "''q''" empty_stage 100
       "[ok_reply \<lparr>items_html = Some [\<lparr>entry_item = \<lparr>item_id = 3, publication_datetime = 90,
                                               content = []\<rparr>, data_time_ms = 90000\<rparr>],
              has_more_items = Some True, min_position = None\<rparr>]"
       "\<lparr>items_html = Some [\<lparr>entry_item = \<lparr>item_id = 3, publication_datetime = 90,
                                               content = []\<rparr>, data_time_ms = 90000\<rparr>],
              has_more_items = Some True, min_position = None\<rparr>"]
  by (simp add: empty_stage_def entries_def retried_def ok_reply_def)

text \<open>
  Both pages below carry an empty \<^verbatim>\<open>min_position\<close> and report more items. The second
  page is therefore fetched with an empty cursor, as the two equal requests show, and its
  entry is yielded all the same.
\<close>

theorem inner_search_emits_counterexample:
  "fst (inner_search ''q'' empty_stage 100
     [ok_reply \<lparr>items_html = Some [\<lparr>entry_item = \<lparr>item_id = 2, publication_datetime = 50,
                                                  content = []\<rparr>, data_time_ms = 50000\<rparr>],
                 has_more_items = Some True, min_position = Some []\<rparr>,
      ok_reply \<lparr>items_html = Some [\<lparr>entry_item = \<lparr>item_id = 1, publication_datetime = 40,
                                                  content = []\<rparr>, data_time_ms = 40000\<rparr>],
                 has_more_items = Some True, min_position = Some []\<rparr>])
   = [Get (SEARCH_URL ''q'' None),
      Get (SEARCH_URL ''q'' None),
      Yield \<lparr>twit_item = \<lparr>item_id = 1, publication_datetime = 40, content = []\<rparr>,
             twit_stage = \<lparr>max_position = Some [], counter = Some 1,
                            last_tweet_pub_time = Some 40000, task_stage = None\<rparr>\<rparr>,
      Get (SEARCH_URL ''q'' None)]"
  by (simp add: inner_search_def search_loop.simps empty_stage_def twits_of_response_Dict
        parse_tweets_def search_url_def Let_def)






section \<open>Properties of the task runners\<close>

subsection \<open>The runners, case by case\<close>

lemma lstrip_space: "lstrip (CHR '' '' # s) = lstrip s"
  by (simp add: lstrip_def isspace_def whitespace_def)

lemma owner_queries:
  assumes "owner \<noteq> []"
  shows "construct_query [] owner False since [] 0
           = Inr (''from:'' @ owner @ (if since \<noteq> [] then '' since:'' @ since else []))"
    and "construct_query [] owner True since [] 0
           = Inr (''to:'' @ owner @ '' filter:replies''
                    @ (if since \<noteq> [] then '' since:'' @ since else []))"
  using assms
  by (simp_all add: construct_query_def lstrip_def isspace_def whitespace_def)


lemma search_query_Inr:
  "search_query \<noteq> [] \<Longrightarrow> \<exists>query. construct_query search_query [] False since [] 0 = Inr query"
  by (simp add: construct_query_def)

lemma emitter_Done [simp]: "emitter (evs, Done u) = (evs, Done u)"
  by (simp add: emitter_def)

lemma emitter_Pending [simp]: "emitter (evs, Pending) = (evs, Pending)"
  by (simp add: emitter_def)

lemma search_eq:
  assumes "search_query \<noteq> []"
    and "construct_query search_query [] False (if T \<noteq> 0 then strftime T else []) [] 0 = Inr query"
    and "inner_search query st now rs = (steps, out, rest)"
  shows "search strftime now T search_query st rs
           = emitter (map (deliver (\<lambda>stage. stage)) (takeWhile (\<lambda>ev. \<not> hard_stop T ev) steps),
                      if \<exists>ev \<in> set steps. hard_stop T ev then Done () else out)"
  using assms by (simp add: search_def for_each_twit_eq)

lemma stage_two_eq:
  assumes "construct_query [] owner True since [] 0 = Inr query"
    and "inner_search query st now rs = (steps, out, rest)"
  shows "stage_two owner since T st now rs
           = (map (deliver (\<lambda>stage. stage\<lparr>task_stage := Some 2\<rparr>))
                (takeWhile (\<lambda>ev. \<not> hard_stop T ev) steps),
              if \<exists>ev \<in> set steps. hard_stop T ev then Done () else out)"
  using assms by (simp add: stage_two_def for_each_twit_eq)

lemma get_owner_check_fails:
  assumes "owner \<noteq> []" and "check_profile owner rs = (checks, out, rest)" and "out \<noteq> Done ()"
  shows "get_owner strftime now later T owner st rs
           = emitter (checks, case out of Raised e \<Rightarrow> Raised e | _ \<Rightarrow> Pending)"
  using assms by (cases out) (simp_all add: get_owner_def)

lemma get_owner_resumed:
  assumes "owner \<noteq> []" and "check_profile owner rs = (checks, Done (), rest)"
    and "task_stage st = Some k" and "k \<noteq> 1"
  shows "get_owner strftime now later T owner st rs
           = emitter (checks @ fst (stage_two owner (if T \<noteq> 0 then strftime T else []) T st now rest),
                      snd (stage_two owner (if T \<noteq> 0 then strftime T else []) T st now rest))"
  using assms by (simp add: get_owner_def case_prod_beta Let_def)

lemma takeWhile_no_stop:
  "\<forall>ev \<in> set steps. \<not> hard_stop T ev
     \<Longrightarrow> takeWhile (\<lambda>ev. \<not> hard_stop T ev) steps = steps"
  by (simp add: takeWhile_eq_all_conv)

lemma get_owner_stage_one:
  assumes "owner \<noteq> []" and "check_profile owner rs = (checks, Done (), rest)"
    and "task_stage st = None \<or> task_stage st = Some 1"
    and "construct_query [] owner False (if T \<noteq> 0 then strftime T else []) [] 0 = Inr query"
    and "inner_search query st now rest = (steps, out, rest')"
  shows "get_owner strftime now later T owner st rs
           = (if \<exists>ev \<in> set steps. hard_stop T ev
              then (checks @ map (deliver (\<lambda>stage. stage\<lparr>task_stage := Some 1\<rparr>))
                               (takeWhile (\<lambda>ev. \<not> hard_stop T ev) steps), Done ())
              else case out of
                     Done u \<Rightarrow>
                       emitter
                         (checks @ map (deliver (\<lambda>stage. stage\<lparr>task_stage := Some 1\<rparr>)) steps
                            @ fst (stage_two owner (if T \<noteq> 0 then strftime T else []) T
                                     empty_stage later rest'),
                          snd (stage_two owner (if T \<noteq> 0 then strftime T else []) T
                                 empty_stage later rest'))
                   | Raised e \<Rightarrow>
                       emitter (checks @ map (deliver (\<lambda>stage. stage\<lparr>task_stage := Some 1\<rparr>)) steps,
                                Raised e)
                   | Pending \<Rightarrow>
                       (checks @ map (deliver (\<lambda>stage. stage\<lparr>task_stage := Some 1\<rparr>)) steps,
                        Pending))"
proof -
  from assms(3) have phase: "(case task_stage st of None \<Rightarrow> 1 | Some k \<Rightarrow> k) = (1::int)"
    by auto
  show ?thesis
    using assms(1,2,4,5)
    by (cases out)
       (auto simp add: get_owner_def for_each_twit_eq case_prod_beta phase Let_def
          takeWhile_no_stop)
qed

lemma delivered_source:
  assumes "e \<in> set (yields (map (deliver mark) (takeWhile (\<lambda>ev. \<not> hard_stop T ev) steps)))"
  shows "\<exists>t. Yield t \<in> set steps
           \<and> e = [(''twits'', Twits [twit_item t]), (''stage'', Stage (mark (twit_stage t)))]
           \<and> of_int T \<le> publication_datetime (twit_item t)"
proof -
  from assms obtain t where t: "t \<in> set (yields (takeWhile (\<lambda>ev. \<not> hard_stop T ev) steps))"
    and e: "e = [(''twits'', Twits [twit_item t]), (''stage'', Stage (mark (twit_stage t)))]"
    by (auto simp: yields_deliver)
  from t have "Yield t \<in> set (takeWhile (\<lambda>ev. \<not> hard_stop T ev) steps)"
    by (simp add: yields_iff)
  then have "Yield t \<in> set steps" and "\<not> hard_stop T (Yield t)"
    by (auto dest: set_takeWhileD)
  with e show ?thesis by auto
qed

lemma takeWhile_until_stop:
  assumes "\<forall>ev \<in> set pre. \<not> hard_stop T ev" and "hard_stop T x"
  shows "takeWhile (\<lambda>ev. \<not> hard_stop T ev) (pre @ x # post) = pre"
  using assms by (simp add: takeWhile_append2)

lemma check_profile_no_yields: "yields (fst (check_profile owner rs)) = []"
  unfolding yields_Nil_iff using check_profile_events [of owner rs] by auto

lemma search_yields:
  assumes "e \<in> set (yields (fst (search strftime now T search_query st rs)))"
  shows "\<exists>query t. construct_query search_query [] False (if T \<noteq> 0 then strftime T else []) [] 0
                      = Inr query
           \<and> Yield t \<in> set (fst (inner_search query st now rs))
           \<and> e = [(''twits'', Twits [twit_item t]), (''stage'', Stage (twit_stage t))]
           \<and> of_int T \<le> publication_datetime (twit_item t)"
proof (cases "search_query = []")
  case True
  with assms show ?thesis by (simp add: search_def emitter_def)
next
  case False
  then obtain query where
    q: "construct_query search_query [] False (if T \<noteq> 0 then strftime T else []) [] 0 = Inr query"
    using search_query_Inr by blast
  obtain steps out rest where run: "inner_search query st now rs = (steps, out, rest)"
    using prod_cases3 by blast
  from assms have
    "e \<in> set (yields (map (deliver (\<lambda>stage. stage)) (takeWhile (\<lambda>ev. \<not> hard_stop T ev) steps)))"
    by (simp add: search_eq [where strftime = strftime and T = T, OF False q run] yields_emitter)
  then obtain t where "Yield t \<in> set steps"
      "e = [(''twits'', Twits [twit_item t]), (''stage'', Stage (twit_stage t))]"
      "of_int T \<le> publication_datetime (twit_item t)"
    using delivered_source by blast
  with q run show ?thesis by auto
qed

lemma stage_two_yields:
  assumes "owner \<noteq> []"
    and "e \<in> set (yields (fst (stage_two owner since T st now rs)))"
  shows "\<exists>query t. construct_query [] owner True since [] 0 = Inr query
           \<and> Yield t \<in> set (fst (inner_search query st now rs))
           \<and> e = [(''twits'', Twits [twit_item t]),
                   (''stage'', Stage ((twit_stage t)\<lparr>task_stage := Some 2\<rparr>))]
           \<and> of_int T \<le> publication_datetime (twit_item t)"
proof -
  obtain query where q: "construct_query [] owner True since [] 0 = Inr query"
    using owner_queries(2) [OF assms(1)] by blast
  obtain steps out rest where run: "inner_search query st now rs = (steps, out, rest)"
    using prod_cases3 by blast
  from assms(2) obtain t where "Yield t \<in> set steps"
      "e = [(''twits'', Twits [twit_item t]), (''stage'', Stage ((twit_stage t)\<lparr>task_stage := Some 2\<rparr>))]"
      "of_int T \<le> publication_datetime (twit_item t)"
    unfolding stage_two_eq [OF q run] using delivered_source by fastforce
  with q run show ?thesis by auto
qed

lemma get_owner_yields:
  assumes "e \<in> set (yields (fst (get_owner strftime now later T owner st rs)))"
  shows "\<exists>query st' now' rs' t k.
           ((k = 1 \<and> construct_query [] owner False (if T \<noteq> 0 then strftime T else []) [] 0
                        = Inr query)
            \<or> (k = 2 \<and> construct_query [] owner True (if T \<noteq> 0 then strftime T else []) [] 0
                        = Inr query))
           \<and> Yield t \<in> set (fst (inner_search query st' now' rs'))
           \<and> e = [(''twits'', Twits [twit_item t]),
                   (''stage'', Stage ((twit_stage t)\<lparr>task_stage := Some k\<rparr>))]
           \<and> of_int T \<le> publication_datetime (twit_item t)"
proof (cases "owner = []")
  case True
  with assms show ?thesis by (simp add: get_owner_def emitter_def)
next
  case False
  let ?goal = ?thesis
  let ?since = "if T \<noteq> 0 then strftime T else []"
  obtain checks :: "envelope event list" and out0 rest0
    where chk: "check_profile owner rs = (checks, out0, rest0)"
    using prod_cases3 by blast
  have no_y: "yields checks = []"
    using check_profile_no_yields [of owner rs, where ?'a = envelope] chk by simp
  have two: "\<And>st' now' rs'. e \<in> set (yields (fst (stage_two owner ?since T st' now' rs')))
               \<Longrightarrow> ?goal"
  proof -
    fix st' now' rs'
    assume "e \<in> set (yields (fst (stage_two owner ?since T st' now' rs')))"
    then obtain query t where "construct_query [] owner True ?since [] 0 = Inr query"
        "Yield t \<in> set (fst (inner_search query st' now' rs'))"
        "e = [(''twits'', Twits [twit_item t]), (''stage'', Stage ((twit_stage t)\<lparr>task_stage := Some 2\<rparr>))]"
        "of_int T \<le> publication_datetime (twit_item t)"
      using stage_two_yields [OF False] by blast
    then show ?goal
      by (intro exI [of _ query] exI [of _ st'] exI [of _ now'] exI [of _ rs']
            exI [of _ t] exI [of _ 2]) simp
  qed
  show ?thesis
  proof (cases "out0 = Done ()")
    case no: False
    with assms no_y show ?thesis
      by (simp add: get_owner_check_fails [OF False chk no] yields_emitter)
  next
    case True
    with chk have chk': "check_profile owner rs = (checks, Done (), rest0)" by simp
    show ?thesis
    proof (cases "task_stage st = None \<or> task_stage st = Some 1")
      case resumed: False
      then obtain k where k: "task_stage st = Some k" "k \<noteq> 1" by (cases "task_stage st") auto
      from assms no_y have "e \<in> set (yields (fst (stage_two owner ?since T st now rest0)))"
        by (simp add: get_owner_resumed [OF False chk' k] yields_emitter yields_append)
      then show ?thesis by (rule two)
    next
      case one: True
      obtain query where q: "construct_query [] owner False ?since [] 0 = Inr query"
        using owner_queries(1) [OF False] by blast
      obtain steps out rest1 where run: "inner_search query st now rest0 = (steps, out, rest1)"
        using prod_cases3 by blast
      let ?mark = "\<lambda>stage. stage\<lparr>task_stage := Some (1::int)\<rparr>"
      have one_src: "e \<in> set (yields (map (deliver ?mark)
                        (takeWhile (\<lambda>ev. \<not> hard_stop T ev) steps))) \<Longrightarrow> ?goal"
      proof -
        assume "e \<in> set (yields (map (deliver ?mark) (takeWhile (\<lambda>ev. \<not> hard_stop T ev) steps)))"
        then obtain t where t: "Yield t \<in> set steps"
            "e = [(''twits'', Twits [twit_item t]), (''stage'', Stage (?mark (twit_stage t)))]"
            "of_int T \<le> publication_datetime (twit_item t)"
          using delivered_source by blast
        from t(1) run have "Yield t \<in> set (fst (inner_search query st now rest0))" by simp
        with q t(2,3) show ?goal
          by (intro exI [of _ query] exI [of _ st] exI [of _ now] exI [of _ rest0]
                exI [of _ t] exI [of _ 1]) simp
      qed
      show ?thesis
      proof (cases "\<exists>ev \<in> set steps. hard_stop T ev")
        case stop: True
        with assms no_y show ?thesis
          by (intro one_src)
             (simp add: get_owner_stage_one [where strftime = strftime and T = T, OF False chk' one q run] yields_append)
      next
        case go: False
        then have tw: "takeWhile (\<lambda>ev. \<not> hard_stop T ev) steps = steps"
          by (simp add: takeWhile_no_stop)
        from assms no_y go
        have "e \<in> set (yields (map (deliver ?mark) steps))
              \<or> e \<in> set (yields (fst (stage_two owner ?since T empty_stage later rest1)))"
          by (cases out)
             (auto simp add: get_owner_stage_one [where strftime = strftime and T = T, OF False chk' one q run] yields_append
                yields_emitter)
        then show ?thesis
        proof
          assume "e \<in> set (yields (map (deliver ?mark) steps))"
          then have "e \<in> set (yields (map (deliver ?mark)
                            (takeWhile (\<lambda>ev. \<not> hard_stop T ev) steps)))"
            by (simp only: tw)
          then show ?thesis by (rule one_src)
        next
          assume "e \<in> set (yields (fst (stage_two owner ?since T empty_stage later rest1)))"
          then show ?thesis by (rule two)
        qed
      qed
    qed
  qed
qed

text \<open>
  C1. With \<open>last_execution_time = T\<close>, no item in an envelope that the search runner or
  the owner runner emits has a \<^verbatim>\<open>publication_datetime\<close> below \<open>T\<close>. When the stream
  yields a twit published before \<open>T\<close>, the runner has delivered exactly the steps before
  that twit and returns: the search runner, stage 1 of the owner runner, which then never
  starts stage 2, and stage 2 of the owner runner.
\<close>

theorem hard_stop_boundary:
  "(\<forall>e \<in> set (yields (fst (search strftime now T search_query st rs))).
      \<forall>i \<in> set (twits_of e). of_int T \<le> publication_datetime i)
   \<and> (\<forall>e \<in> set (yields (fst (get_owner strftime now later T owner st rs))).
      \<forall>i \<in> set (twits_of e). of_int T \<le> publication_datetime i)
   \<and> (search_query \<noteq> []
        \<and> construct_query search_query [] False (if T \<noteq> 0 then strftime T else []) [] 0
            = Inr query
        \<and> inner_search query st now rs = (pre @ Yield t # post, out, rest)
        \<and> (\<forall>ev \<in> set pre. \<not> hard_stop T ev)
        \<and> publication_datetime (twit_item t) < of_int T
      \<longrightarrow> search strftime now T search_query st rs
            = (map (deliver (\<lambda>stage. stage)) pre, Done ()))
   \<and> (owner \<noteq> []
        \<and> check_profile owner rs = (checks, Done (), rest0)
        \<and> (task_stage st = None \<or> task_stage st = Some 1)
        \<and> construct_query [] owner False (if T \<noteq> 0 then strftime T else []) [] 0
            = Inr query1
        \<and> inner_search query1 st now rest0 = (pre1 @ Yield t1 # post1, out1, rest1)
        \<and> (\<forall>ev \<in> set pre1. \<not> hard_stop T ev)
        \<and> publication_datetime (twit_item t1) < of_int T
      \<longrightarrow> get_owner strftime now later T owner st rs
            = (checks @ map (deliver (\<lambda>stage. stage\<lparr>task_stage := Some 1\<rparr>)) pre1, Done ()))
   \<and> (construct_query [] owner True since [] 0 = Inr query2
        \<and> inner_search query2 st2 now2 rs2 = (pre2 @ Yield t2 # post2, out2, rest2)
        \<and> (\<forall>ev \<in> set pre2. \<not> hard_stop T ev)
        \<and> publication_datetime (twit_item t2) < of_int T
      \<longrightarrow> stage_two owner since T st2 now2 rs2
            = (map (deliver (\<lambda>stage. stage\<lparr>task_stage := Some 2\<rparr>)) pre2, Done ()))"
proof (intro conjI ballI impI)
  fix e i
  assume e: "e \<in> set (yields (fst (search strftime now T search_query st rs)))"
    and i: "i \<in> set (twits_of e)"
  from e obtain t :: twit
    where "e = [(''twits'', Twits [twit_item t]), (''stage'', Stage (twit_stage t))]"
      "of_int T \<le> publication_datetime (twit_item t)"
    using search_yields [of e strftime now T search_query st rs] by blast
  with i show "of_int T \<le> publication_datetime i"
    by (simp add: twits_of_def)
next
  fix e i
  assume e: "e \<in> set (yields (fst (get_owner strftime now later T owner st rs)))"
    and i: "i \<in> set (twits_of e)"
  from e obtain t :: twit and k where
      "e = [(''twits'', Twits [twit_item t]),
            (''stage'', Stage ((twit_stage t)\<lparr>task_stage := Some k\<rparr>))]"
      "of_int T \<le> publication_datetime (twit_item t)"
    using get_owner_yields [of e strftime now later T owner st rs] by blast
  with i show "of_int T \<le> publication_datetime i"
    by (simp add: twits_of_def)
next
  assume a: "search_query \<noteq> []
        \<and> construct_query search_query [] False (if T \<noteq> 0 then strftime T else []) [] 0
            = Inr query
        \<and> inner_search query st now rs = (pre @ Yield t # post, out, rest)
        \<and> (\<forall>ev \<in> set pre. \<not> hard_stop T ev)
        \<and> publication_datetime (twit_item t) < of_int T"
  then have stop: "hard_stop T (Yield t)" by simp
  with a have tw: "takeWhile (\<lambda>ev. \<not> hard_stop T ev) (pre @ Yield t # post) = pre"
    by (intro takeWhile_until_stop) simp_all
  from a have a1: "search_query \<noteq> []"
    and a2: "construct_query search_query [] False (if T \<noteq> 0 then strftime T else []) [] 0
               = Inr query"
    and a3: "inner_search query st now rs = (pre @ Yield t # post, out, rest)"
    by simp_all
  have "search strftime now T search_query st rs
                 = emitter (map (deliver (\<lambda>stage. stage))
                              (takeWhile (\<lambda>ev. \<not> hard_stop T ev) (pre @ Yield t # post)),
                            if \<exists>ev \<in> set (pre @ Yield t # post). hard_stop T ev
                            then Done () else out)"
    by (rule search_eq [where strftime = strftime and T = T, OF a1 a2 a3])
  also have "\<dots> = (map (deliver (\<lambda>stage. stage)) pre, Done ())"
    using stop by (simp only: tw) simp
  finally show "search strftime now T search_query st rs
                  = (map (deliver (\<lambda>stage. stage)) pre, Done ())" .
next
  assume a: "owner \<noteq> []
        \<and> check_profile owner rs = (checks, Done (), rest0)
        \<and> (task_stage st = None \<or> task_stage st = Some 1)
        \<and> construct_query [] owner False (if T \<noteq> 0 then strftime T else []) [] 0
            = Inr query1
        \<and> inner_search query1 st now rest0 = (pre1 @ Yield t1 # post1, out1, rest1)
        \<and> (\<forall>ev \<in> set pre1. \<not> hard_stop T ev)
        \<and> publication_datetime (twit_item t1) < of_int T"
  then have stop: "hard_stop T (Yield t1)" by simp
  with a have tw: "takeWhile (\<lambda>ev. \<not> hard_stop T ev) (pre1 @ Yield t1 # post1) = pre1"
    by (intro takeWhile_until_stop) simp_all
  have ex: "\<exists>ev \<in> set (pre1 @ Yield t1 # post1). hard_stop T ev"
    using stop by auto
  from a have a1: "owner \<noteq> []"
    and a2: "check_profile owner rs = (checks, Done (), rest0)"
    and a3: "task_stage st = None \<or> task_stage st = Some 1"
    and a4: "construct_query [] owner False (if T \<noteq> 0 then strftime T else []) [] 0
               = Inr query1"
    and a5: "inner_search query1 st now rest0 = (pre1 @ Yield t1 # post1, out1, rest1)"
    by simp_all
  have "get_owner strftime now later T owner st rs
          = (checks @ map (deliver (\<lambda>stage. stage\<lparr>task_stage := Some 1\<rparr>))
                     (takeWhile (\<lambda>ev. \<not> hard_stop T ev) (pre1 @ Yield t1 # post1)), Done ())"
    unfolding get_owner_stage_one [where strftime = strftime and T = T, OF a1 a2 a3 a4 a5]
    using ex by (simp only: if_True)
  then show "get_owner strftime now later T owner st rs
            = (checks @ map (deliver (\<lambda>stage. stage\<lparr>task_stage := Some 1\<rparr>)) pre1, Done ())"
    by (simp only: ex if_True tw)
next
  assume a: "construct_query [] owner True since [] 0 = Inr query2
        \<and> inner_search query2 st2 now2 rs2 = (pre2 @ Yield t2 # post2, out2, rest2)
        \<and> (\<forall>ev \<in> set pre2. \<not> hard_stop T ev)
        \<and> publication_datetime (twit_item t2) < of_int T"
  then have stop: "hard_stop T (Yield t2)" by simp
  with a have tw: "takeWhile (\<lambda>ev. \<not> hard_stop T ev) (pre2 @ Yield t2 # post2) = pre2"
    by (intro takeWhile_until_stop) simp_all
  from a have a1: "construct_query [] owner True since [] 0 = Inr query2"
    and a2: "inner_search query2 st2 now2 rs2 = (pre2 @ Yield t2 # post2, out2, rest2)"
    by simp_all
  have "stage_two owner since T st2 now2 rs2
                 = (map (deliver (\<lambda>stage. stage\<lparr>task_stage := Some 2\<rparr>))
                      (takeWhile (\<lambda>ev. \<not> hard_stop T ev) (pre2 @ Yield t2 # post2)),
                    if \<exists>ev \<in> set (pre2 @ Yield t2 # post2). hard_stop T ev
                    then Done () else out2)"
    by (rule stage_two_eq [OF a1 a2])
  also have "\<dots> = (map (deliver (\<lambda>stage. stage\<lparr>task_stage := Some 2\<rparr>)) pre2, Done ())"
    using stop by (simp only: tw) simp
  finally show "stage_two owner since T st2 now2 rs2
            = (map (deliver (\<lambda>stage. stage\<lparr>task_stage := Some 2\<rparr>)) pre2, Done ())" .
qed

text \<open>A resumed search with \<open>T = 15\<close>: the twit published at 20 is delivered, the one published
  at 10 ends the task.\<close>

theorem hard_stop_boundary_witness:
  "search (\<lambda>t. ''1970-01-01'') 100 15 ''q''
     \<lparr>max_position = Some ''c'', counter = Some 5, last_tweet_pub_time = Some 100000,
        task_stage = None\<rparr>
     [ok_reply \<lparr>items_html = Some [\<lparr>entry_item = \<lparr>item_id = 9, publication_datetime = 20,
                                                  content = []\<rparr>, data_time_ms = 20000\<rparr>,
                                   \<lparr>entry_item = \<lparr>item_id = 8, publication_datetime = 10,
                                                  content = []\<rparr>, data_time_ms = 10000\<rparr>],
                 has_more_items = Some False, min_position = None\<rparr>]
   = ([Get (SEARCH_URL ''q since:1970-01-01'' (Some ''c'')),
       Yield [(''twits'', Twits [\<lparr>item_id = 9, publication_datetime = 20, content = []\<rparr>]),
              (''stage'', Stage \<lparr>max_position = Some ''c'', counter = Some 6,
                             last_tweet_pub_time = Some 20000, task_stage = None\<rparr>)]],
      Done ())"
proof -
  let ?st = "\<lparr>max_position = Some ''c'', counter = Some 5, last_tweet_pub_time = Some 100000,
               task_stage = None\<rparr>"
  let ?rs = "[ok_reply \<lparr>items_html = Some [\<lparr>entry_item = \<lparr>item_id = 9, publication_datetime = 20,
                                                  content = []\<rparr>, data_time_ms = 20000\<rparr>,
                                   \<lparr>entry_item = \<lparr>item_id = 8, publication_datetime = 10,
                                                  content = []\<rparr>, data_time_ms = 10000\<rparr>],
                 has_more_items = Some False, min_position = None\<rparr>]"
  let ?t9 = "\<lparr>twit_item = \<lparr>item_id = 9, publication_datetime = 20, content = []\<rparr>,
               twit_stage = \<lparr>max_position = Some ''c'', counter = Some 6,
                              last_tweet_pub_time = Some 20000, task_stage = None\<rparr>\<rparr>"
  let ?t8 = "\<lparr>twit_item = \<lparr>item_id = 8, publication_datetime = 10, content = []\<rparr>,
               twit_stage = \<lparr>max_position = Some ''c'', counter = Some 7,
                              last_tweet_pub_time = Some 10000, task_stage = None\<rparr>\<rparr>"
  let ?pre = "[Get (SEARCH_URL ''q since:1970-01-01'' (Some ''c'')), Yield ?t9]"
  have q: "construct_query ''q'' [] False
             (if (15::int) \<noteq> 0 then (\<lambda>t. ''1970-01-01'') (15::int) else []) [] 0
             = Inr ''q since:1970-01-01''"
    by (simp add: construct_query_def lstrip_def isspace_def whitespace_def)
  have run: "inner_search ''q since:1970-01-01'' ?st 100 ?rs = (?pre @ Yield ?t8 # [], Done (), [])"
    by (simp add: inner_search_def twits_of_response_Dict parse_tweets_def search_url_def Let_def)
  have pre: "\<forall>ev \<in> set ?pre. \<not> hard_stop 15 ev" by simp
  have stop: "publication_datetime (twit_item ?t8) < of_int 15" by simp
  have "search (\<lambda>t. ''1970-01-01'') 100 15 ''q'' ?st ?rs = (map (deliver (\<lambda>stage. stage)) ?pre, Done ())"
    using hard_stop_boundary
      [where strftime = "\<lambda>t. ''1970-01-01''" and T = 15 and search_query = "''q''"
         and query = "''q since:1970-01-01''" and st = ?st and now = 100 and rs = ?rs
         and pre = ?pre and t = ?t8 and post = "[]" and out = "Done ()" and rest = "[]"]
      q run pre stop
    by blast
  then show ?thesis by simp
qed




subsection \<open>The requests of the owner runner\<close>

lemma Get_deliver_image_iff: "Get u \<in> deliver mark ` set steps \<longleftrightarrow> Get u \<in> set steps"
proof
  assume "Get u \<in> deliver mark ` set steps"
  then obtain ev where ev: "ev \<in> set steps" "Get u = deliver mark ev" by blast
  have "ev = Get u" using ev(2) by (cases ev) simp_all
  with ev(1) show "Get u \<in> set steps" by simp
next
  assume "Get u \<in> set steps"
  then have "deliver mark (Get u) \<in> deliver mark ` set steps" by (rule imageI)
  then show "Get u \<in> deliver mark ` set steps" by simp
qed

lemma Get_deliver_iff: "Get u \<in> set (map (deliver mark) steps) \<longleftrightarrow> Get u \<in> set steps"
  by (simp add: Get_deliver_image_iff)


lemma search_url_neq: "q \<noteq> q' \<Longrightarrow> search_url q cur \<noteq> SEARCH_URL q' cur'"
  by (simp add: search_url_def)

lemma check_profile_requests:
  "Get u \<in> set (fst (check_profile owner rs)) \<Longrightarrow> u = MOBILE_URL owner"
  using check_profile_events [of owner rs] by auto






lemma emitter_prefix:
  "\<exists>later_evs. fst (emitter (checks @ evs, out)) = checks @ later_evs"
proof -
  have "fst (emitter (checks @ evs, out)) = checks @ evs
        \<or> fst (emitter (checks @ evs, out)) = checks @ (evs @ [Sleep 1])"
    using emitter_fst_cases [of "checks @ evs" out] by simp
  then show ?thesis by blast
qed

lemma get_owner_after_check:
  fixes checks :: "envelope event list"
  assumes owner: "owner \<noteq> []" and chk: "check_profile owner rs = (checks, out, rest)"
  shows "\<exists>later_evs. fst (get_owner strftime now later T owner st rs) = checks @ later_evs
           \<and> (out \<noteq> Done () \<longrightarrow> requests later_evs = [])"
proof -
  let ?since = "if T \<noteq> 0 then strftime T else []"
  let ?run = "get_owner strftime now later T owner st rs"
  show ?thesis
  proof (cases "out = Done ()")
    case no: False
    have "fst ?run = checks @ [] \<or> fst ?run = checks @ [Sleep 1]"
      using emitter_fst_cases [of checks "case out of Raised e \<Rightarrow> Raised e | _ \<Rightarrow> Pending"]
      by (simp add: get_owner_check_fails [OF owner chk no])
    then show ?thesis
    proof
      assume "fst ?run = checks @ []"
      then have "fst ?run = checks @ [] \<and> (out \<noteq> Done () \<longrightarrow> requests ([] :: envelope event list) = [])"
        by simp
      then show ?thesis by blast
    next
      assume "fst ?run = checks @ [Sleep 1]"
      then have "fst ?run = checks @ [Sleep 1]
                 \<and> (out \<noteq> Done () \<longrightarrow> requests ([Sleep 1] :: envelope event list) = [])"
        by simp
      then show ?thesis by blast
    qed
  next
    case True
    with chk have chk': "check_profile owner rs = (checks, Done (), rest)" by simp
    have "\<exists>later_evs. fst ?run = checks @ later_evs"
    proof (cases "task_stage st = None \<or> task_stage st = Some 1")
      case resumed: False
      then obtain k where k: "task_stage st = Some k" "k \<noteq> 1" by (cases "task_stage st") auto
      show ?thesis
        by (simp only: get_owner_resumed [OF owner chk' k] emitter_prefix)
    next
      case one: True
      obtain query where q: "construct_query [] owner False ?since [] 0 = Inr query"
        using owner_queries(1) [OF owner] by blast
      obtain steps out1 rest1 where run: "inner_search query st now rest = (steps, out1, rest1)"
        using prod_cases3 by blast
      note eq = get_owner_stage_one [where strftime = strftime and T = T, OF owner chk' one q run]
      show ?thesis
      proof (cases "\<exists>ev \<in> set steps. hard_stop T ev")
        case True
        then show ?thesis by (simp add: eq)
      next
        case False
        then show ?thesis
          by (cases out1) (simp_all add: eq emitter_prefix)
      qed
    qed
    with True show ?thesis by simp
  qed
qed

text \<open>
  C7. The run of an owner task with a profile starts with the requests of the profile
  check, which go to the mobile page of the profile only, and when the check does not
  pass no request follows them. A 404 on the mobile page raises \<^verbatim>\<open>InvalidProfile\<close> and a
  200 with the \<^verbatim>\<open>protected\<close> marker raises \<^verbatim>\<open>PrivateProfile\<close>, after that one request
  and before any search request; a 200 without the marker makes the check return with no
  value.
\<close>

theorem profile_checked_first:
  fixes checks :: "envelope event list"
  shows
    "(owner \<noteq> [] \<and> check_profile owner rs = (checks, out, rest) \<longrightarrow>
        (\<exists>evs. checks = Get (MOBILE_URL owner) # evs)
        \<and> (\<forall>u. Get u \<in> set checks \<longrightarrow> u = MOBILE_URL owner)
        \<and> (\<exists>later_evs. fst (get_owner strftime now later T owner st rs) = checks @ later_evs
              \<and> (out \<noteq> Done () \<longrightarrow> requests later_evs = [])))
     \<and> (owner \<noteq> [] \<and> status r = 404 \<longrightarrow>
        get_owner strftime now later T owner st (Answer r # rs')
          = ([Get (MOBILE_URL owner)], Raised (InvalidProfile owner)))
     \<and> (owner \<noteq> [] \<and> status r = 200 \<and> protected_div r \<longrightarrow>
        get_owner strftime now later T owner st (Answer r # rs')
          = ([Get (MOBILE_URL owner)], Raised (PrivateProfile owner)))
     \<and> (status r = 200 \<and> \<not> protected_div r \<longrightarrow>
        check_profile owner (Answer r # rs')
          = ([Get (MOBILE_URL owner) :: envelope event], Done (), rs'))"
proof (intro conjI impI)
  assume a: "owner \<noteq> [] \<and> check_profile owner rs = (checks, out, rest)"
  then have owner: "owner \<noteq> []" and chk: "check_profile owner rs = (checks, out, rest)"
    by simp_all
  show "\<exists>evs. checks = Get (MOBILE_URL owner) # evs"
    using check_profile_first [of owner rs, where ?'a = envelope] chk by simp
  show "\<forall>u. Get u \<in> set checks \<longrightarrow> u = MOBILE_URL owner"
    using check_profile_requests [of _ owner rs, where ?'a = envelope] chk by simp
  show "\<exists>later_evs. fst (get_owner strftime now later T owner st rs) = checks @ later_evs
              \<and> (out \<noteq> Done () \<longrightarrow> requests later_evs = [])"
    using owner chk by (rule get_owner_after_check)
next
  assume "owner \<noteq> [] \<and> status r = 404"
  then show "get_owner strftime now later T owner st (Answer r # rs')
          = ([Get (MOBILE_URL owner)], Raised (InvalidProfile owner))"
    by (simp add: get_owner_def check_profile.simps(2) emitter_def Let_def)
next
  assume "owner \<noteq> [] \<and> status r = 200 \<and> protected_div r"
  then show "get_owner strftime now later T owner st (Answer r # rs')
          = ([Get (MOBILE_URL owner)], Raised (PrivateProfile owner))"
    by (simp add: get_owner_def check_profile.simps(2) emitter_def Let_def)
next
  assume "status r = 200 \<and> \<not> protected_div r"
  then show "check_profile owner (Answer r # rs')
          = ([Get (MOBILE_URL owner) :: envelope event], Done (), rs')"
    by (simp add: check_profile.simps(2))
qed

text \<open>A missing profile, a protected one, an open one, and a missing profile after one 503.\<close>

theorem profile_checked_first_witness:
  "get_owner (\<lambda>t. []) 100 200 0 ''bob'' empty_stage
      (Answer \<lparr>status = 404, json_body = Not_a_dict, protected_div = False\<rparr> # [])
     = ([Get (MOBILE_URL ''bob'')], Raised (InvalidProfile ''bob''))
   \<and> get_owner (\<lambda>t. []) 100 200 0 ''bob'' empty_stage
      (Answer \<lparr>status = 200, json_body = Not_a_dict, protected_div = True\<rparr> # [])
     = ([Get (MOBILE_URL ''bob'')], Raised (PrivateProfile ''bob''))
   \<and> check_profile ''bob''
      (Answer \<lparr>status = 200, json_body = Not_a_dict, protected_div = False\<rparr> # [])
     = ([Get (MOBILE_URL ''bob'') :: envelope event], Done (), [])
   \<and> (\<exists>later_evs.
        fst (get_owner (\<lambda>t. []) 100 200 0 ''bob'' empty_stage
               [Answer \<lparr>status = 503, json_body = Not_a_dict, protected_div = False\<rparr>,
                Answer \<lparr>status = 404, json_body = Not_a_dict, protected_div = False\<rparr>])
          = [Get (MOBILE_URL ''bob''), Get (MOBILE_URL ''bob'')] @ later_evs
        \<and> requests later_evs = [])"
proof -
  let ?r404 = "\<lparr>status = 404, json_body = Not_a_dict, protected_div = False\<rparr>"
  let ?r503 = "\<lparr>status = 503, json_body = Not_a_dict, protected_div = False\<rparr>"
  let ?prot = "\<lparr>status = 200, json_body = Not_a_dict, protected_div = True\<rparr>"
  let ?public = "\<lparr>status = 200, json_body = Not_a_dict, protected_div = False\<rparr>"
  note inst = profile_checked_first
    [where strftime = "\<lambda>t. []" and now = 100 and later = 200 and T = 0 and owner = "''bob''"
       and st = empty_stage and rs' = "[]"]
  have chk: "''bob'' \<noteq> [] \<and> check_profile ''bob'' [Answer ?r503, Answer ?r404]
               = ([Get (MOBILE_URL ''bob''), Get (MOBILE_URL ''bob'') :: envelope event],
                  Raised (InvalidProfile ''bob''), [])"
    by (simp add: check_profile.simps(2))
  have "\<exists>later_evs.
        fst (get_owner (\<lambda>t. []) 100 200 0 ''bob'' empty_stage [Answer ?r503, Answer ?r404])
          = [Get (MOBILE_URL ''bob''), Get (MOBILE_URL ''bob'')] @ later_evs
        \<and> (Raised (InvalidProfile ''bob'') \<noteq> Done () \<longrightarrow> requests later_evs = [])"
    using inst [where rs = "[Answer ?r503, Answer ?r404]"
                 and checks = "[Get (MOBILE_URL ''bob''), Get (MOBILE_URL ''bob'')]"
                 and out = "Raised (InvalidProfile ''bob'')" and rest = "[]" and r = ?r404]
      chk
    by blast
  then have "\<exists>later_evs.
        fst (get_owner (\<lambda>t. []) 100 200 0 ''bob'' empty_stage [Answer ?r503, Answer ?r404])
          = [Get (MOBILE_URL ''bob''), Get (MOBILE_URL ''bob'')] @ later_evs
        \<and> requests later_evs = []"
    by simp
  moreover have "get_owner (\<lambda>t. []) 100 200 0 ''bob'' empty_stage (Answer ?r404 # [])
     = ([Get (MOBILE_URL ''bob'')], Raised (InvalidProfile ''bob''))"
    using inst [where r = ?r404 and rs = "[]" and checks = "[]" and out = Pending and rest = "[]"]
    by simp
  moreover have "get_owner (\<lambda>t. []) 100 200 0 ''bob'' empty_stage (Answer ?prot # [])
     = ([Get (MOBILE_URL ''bob'')], Raised (PrivateProfile ''bob''))"
    using inst [where r = ?prot and rs = "[]" and checks = "[]" and out = Pending and rest = "[]"]
    by simp
  moreover have "check_profile ''bob'' (Answer ?public # [])
     = ([Get (MOBILE_URL ''bob'') :: envelope event], Done (), [])"
    using inst [where r = ?public and rs = "[]" and checks = "[]" and out = Pending and rest = "[]"]
    by simp
  ultimately show ?thesis by blast
qed

end
